theory Spec2Isabelle
  imports Complex_Main
begin

section \<open>Python values used by cr2/thermal.py\<close>

text \<open>
  Python 2 \<open>str\<close> is a byte string: \<open>string\<close> here.  The exceptions the module can
  raise are the constructors of \<open>error\<close>; a function that can raise returns
  \<open>error + 'a\<close> with \<open>Inl\<close> the exception.
\<close>

datatype error = AttributeError | KeyError | IOError | ValueError | CalledProcessError

text \<open>\<open>str(idx)\<close> for a non-negative index, as \<open>"{}".format(idx)\<close> prints it
  (\<open>digit_char\<close> is only applied to a number below 10).\<close>

definition digit_char :: "nat \<Rightarrow> char" where
  "digit_char d = ''0123456789'' ! d"

fun str_nat :: "nat \<Rightarrow> string" where
  "str_nat n = (if n < 10 then [digit_char n] else str_nat (n div 10) @ [digit_char (n mod 10)])"

declare str_nat.simps [simp del]

text \<open>\<open>s.split(' ')\<close>: cut at every single space; the result is never empty.\<close>

fun split_on :: "char \<Rightarrow> string \<Rightarrow> string list" where
  "split_on d [] = [[]]"
| "split_on d (c # cs) =
     (if c = d then [] # split_on d cs
      else (case split_on d cs of [] \<Rightarrow> [[c]] | w # ws \<Rightarrow> (c # w) # ws))"

text \<open>
  The widths argument is a \<open>dict\<close> (the docstring's \<open>{"load": 4}\<close>) or the
  \<open>defaultdict(int)\<close> that \<open>get_trace_array_lengths\<close> returns.  \<open>d[k]\<close> raises
  \<open>KeyError\<close> on a missing key of a \<open>dict\<close> and gives \<open>int() = 0\<close> on a
  \<open>defaultdict(int)\<close>.  (The \<open>defaultdict\<close> also stores that 0 under the key; every
  later lookup of the key gives 0 either way, so the stored entry is not threaded
  through the model.)
\<close>

datatype pydict = Dict "string \<rightharpoonup> int" | DefaultDict "string \<rightharpoonup> int"

fun entries :: "pydict \<Rightarrow> (string \<rightharpoonup> int)" where
  "entries (Dict m) = m"
| "entries (DefaultDict m) = m"

fun getitem :: "pydict \<Rightarrow> string \<Rightarrow> error + int" where
  "getitem (Dict m) k = (case m k of None \<Rightarrow> Inl KeyError | Some v \<Rightarrow> Inr v)"
| "getitem (DefaultDict m) k = (case m k of None \<Rightarrow> Inr 0 | Some v \<Rightarrow> Inr v)"

section \<open>The regular expressions of the module\<close>

text \<open>
  Every pattern of the module is a sequence of items, each a character class matched
  once (a literal is the class of one character) or a character class under a greedy
  \<open>+\<close>.  \<open>re_match\<close> is Python's backtracking matcher on such a sequence, anchored
  at the start of the string: a \<open>+\<close> first takes the longest run of its class and gives
  characters back one at a time until the rest of the pattern matches.  The result is
  the number of characters each item consumed.
\<close>

datatype item = One "char \<Rightarrow> bool" | Plus "char \<Rightarrow> bool"

abbreviation Lit :: "char \<Rightarrow> item" where
  "Lit c \<equiv> One (\<lambda>x. x = c)"

abbreviation PlusNot :: "char \<Rightarrow> item" where
  "PlusNot c \<equiv> Plus (\<lambda>x. x \<noteq> c)"

fun backtrack :: "(nat \<Rightarrow> 'a option) \<Rightarrow> nat \<Rightarrow> 'a option" where
  "backtrack f 0 = None"
| "backtrack f (Suc k) = (case f (Suc k) of Some r \<Rightarrow> Some r | None \<Rightarrow> backtrack f k)"

primrec re_match :: "item list \<Rightarrow> string \<Rightarrow> nat list option" where
  "re_match [] s = Some []"
| "re_match (it # its) s =
     (case it of
        One P \<Rightarrow>
          (case s of
             [] \<Rightarrow> None
           | c # cs \<Rightarrow> if P c then map_option ((#) 1) (re_match its cs) else None)
      | Plus P \<Rightarrow>
          backtrack (\<lambda>k. map_option ((#) k) (re_match its (drop k s)))
            (length (takeWhile P s)))"

text \<open>
  \<open>re.search\<close>: the match at the leftmost start position that has one.  The result is
  the start offset and the items' spans.
\<close>

fun re_search :: "item list \<Rightarrow> string \<Rightarrow> (nat \<times> nat list) option" where
  "re_search p [] = map_option (Pair 0) (re_match p [])"
| "re_search p (c # cs) =
     (case re_match p (c # cs) of
        Some sp \<Rightarrow> Some (0, sp)
      | None \<Rightarrow> map_option (\<lambda>(i, sp). (Suc i, sp)) (re_search p cs))"

text \<open>
  \<open>match.end()\<close>, and the text matched by the \<open>k\<close> items of the pattern from
  item \<open>n\<close> on (a parenthesised group of the pattern is such a run of items).
\<close>

definition m_end :: "nat \<times> nat list \<Rightarrow> nat" where
  "m_end m = fst m + sum_list (snd m)"

definition m_group :: "string \<Rightarrow> nat \<times> nat list \<Rightarrow> nat \<Rightarrow> nat \<Rightarrow> string" where
  "m_group s m n k =
     take (sum_list (take k (drop n (snd m)))) (drop (fst m + sum_list (take n (snd m))) s)"

subsection \<open>A match of a non-empty pattern is not empty\<close>

lemma backtrack_Some:
  "backtrack f n = Some r \<Longrightarrow> \<exists>k. 0 < k \<and> k \<le> n \<and> f k = Some r"
proof (induction n)
  case 0
  then show ?case by simp
next
  case (Suc n)
  show ?case
  proof (cases "f (Suc n)")
    case None
    with Suc obtain k where "0 < k" "k \<le> n" "f k = Some r" by auto
    then show ?thesis by (intro exI [of _ k]) simp
  next
    case (Some a)
    with Suc.prems show ?thesis by (intro exI [of _ "Suc n"]) simp
  qed
qed

lemma re_match_bounds:
  "re_match p s = Some sp \<Longrightarrow>
     length sp = length p \<and> sum_list sp \<le> length s \<and> (\<forall>n \<in> set sp. 0 < n)"
proof (induction p arbitrary: s sp)
  case Nil
  then show ?case by simp
next
  case (Cons it its)
  show ?case
  proof (cases it)
    case (One P)
    with Cons.prems obtain c cs sp' where s: "s = c # cs" and sp: "sp = 1 # sp'"
      and m: "re_match its cs = Some sp'"
      by (auto split: list.splits if_splits)
    from Cons.IH [OF m] s sp show ?thesis by simp
  next
    case (Plus P)
    with Cons.prems have
      "backtrack (\<lambda>k. map_option ((#) k) (re_match its (drop k s))) (length (takeWhile P s)) = Some sp"
      by simp
    from backtrack_Some [OF this] obtain k sp' where k: "0 < k" "k \<le> length (takeWhile P s)"
      and sp: "sp = k # sp'" and m: "re_match its (drop k s) = Some sp'"
      by auto
    have "length (takeWhile P s) \<le> length s" by (rule length_takeWhile_le)
    with Cons.IH [OF m] k sp show ?thesis by auto
  qed
qed

lemma re_match_pos: "re_match p s = Some sp \<Longrightarrow> p \<noteq> [] \<Longrightarrow> 0 < sum_list sp"
  using re_match_bounds [of p s sp] by (cases sp) auto

lemma re_search_bounds:
  "re_search p s = Some m \<Longrightarrow> m_end m \<le> length s \<and> (p \<noteq> [] \<longrightarrow> fst m < m_end m)"
proof (induction s arbitrary: m)
  case Nil
  then show ?case
    using re_match_bounds [of p "[]"] re_match_pos [of p "[]"] by (auto simp: m_end_def)
next
  case (Cons c cs)
  show ?case
  proof (cases "re_match p (c # cs)")
    case (Some sp)
    with Cons.prems re_match_bounds [OF Some] re_match_pos [OF Some] show ?thesis
      by (auto simp: m_end_def)
  next
    case None
    with Cons.prems obtain m' where "re_search p cs = Some m'" "m = (Suc (fst m'), snd m')"
      by (auto split: prod.splits)
    with Cons.IH [of m'] show ?thesis by (auto simp: m_end_def)
  qed
qed

definition word_char :: "char \<Rightarrow> bool" where
  "word_char c \<longleftrightarrow>
     c \<in> set ''ABCDEFGHIJKLMNOPQRSTUVWXYZabcdefghijklmnopqrstuvwxyz0123456789_''"

definition digit :: "char \<Rightarrow> bool" where
  "digit c \<longleftrightarrow> c \<in> set ''0123456789''"

section \<open>trace_parser_explode_array\<close>

text \<open>\<open>r"[^ ]+={[^}]+}"\<close>, \<open>r"([^=]+)="\<close> and \<open>r"{(.+)}"\<close> (\<open>.\<close> is any character but
  a newline).\<close>

definition pat_explode :: "item list" where
  "pat_explode = [PlusNot CHR '' '', Lit CHR ''='', Lit CHR ''{'', PlusNot CHR ''}'', Lit CHR ''}'']"

definition pat_basename :: "item list" where
  "pat_basename = [PlusNot CHR ''='', Lit CHR ''='']"

definition pat_vals :: "item list" where
  "pat_vals = [Lit CHR ''{'', PlusNot CHR 0x0A, Lit CHR ''}'']"

text \<open>
  One pass through the body of the \<open>while True\<close> loop, for the match \<open>m\<close> that
  \<open>re.search\<close> found in \<open>string\<close>: the new value of \<open>string\<close>, or the exception
  (\<open>.groups()\<close> on \<open>None\<close> is an \<open>AttributeError\<close>).
\<close>

definition exploded_elems :: "string \<Rightarrow> string list \<Rightarrow> string" where
  "exploded_elems col_basename vals_array =
     concat (map (\<lambda>(idx, val). col_basename @ str_nat idx @ ''='' @ val @ '' '')
       (enumerate 0 vals_array))"

definition exploded_zeros :: "string \<Rightarrow> nat \<Rightarrow> int \<Rightarrow> string" where
  "exploded_zeros col_basename vals_added len =
     (if int vals_added < len
      then concat (map (\<lambda>idx. col_basename @ str_nat idx @ ''=0 '') [vals_added ..< nat len])
      else [])"

definition explode_match :: "string \<Rightarrow> pydict \<Rightarrow> nat \<times> nat list \<Rightarrow> error + string" where
  "explode_match string array_lengths m =
     (let to_explode = take (sum_list (snd m)) (drop (fst m) string) in
      case re_match pat_basename to_explode of
        None \<Rightarrow> Inl AttributeError
      | Some bsp \<Rightarrow>
     (let col_basename = m_group to_explode (0, bsp) 0 1 in
      case re_search pat_vals to_explode of
        None \<Rightarrow> Inl AttributeError
      | Some vm \<Rightarrow>
     (let vals_str = m_group to_explode vm 1 1;
          vals_array = split_on CHR '' '' vals_str;
          vals_added = length vals_array
      in case getitem array_lengths col_basename of
        Inl e \<Rightarrow> Inl e
      | Inr len \<Rightarrow>
     (let exploded_str =
            exploded_elems col_basename vals_array @ exploded_zeros col_basename vals_added len
      in Inr (take (fst m) string @ butlast exploded_str @ drop (m_end m) string)))))"

text \<open>
  The loop itself.  Nothing in the source bounds the number of passes, so it is a
  partial function: \<open>None\<close> is the loop that runs forever, \<open>Some (Inl e)\<close> the
  exception \<open>e\<close>, \<open>Some (Inr s)\<close> the returned string.
\<close>

partial_function (option) trace_parser_explode_array :: "string \<Rightarrow> pydict \<Rightarrow> (error + string) option" where
  "trace_parser_explode_array string array_lengths =
     (case re_search pat_explode string of
        None \<Rightarrow> Some (Inr string)
      | Some m \<Rightarrow>
          (case explode_match string array_lengths m of
             Inl e \<Rightarrow> Some (Inl e)
           | Inr string' \<Rightarrow> trace_parser_explode_array string' array_lengths))"

declare trace_parser_explode_array.simps [code]

text \<open>
  \<open>re.sub(pattern, repl, s)\<close> for a pattern of at least one item (a match is then
  never empty): the matches are found left to right, each search starting where the
  match before it ended; the text between the matches is kept.  \<open>repl\<close> is given the
  text from the start of the match on and the spans of the match.
\<close>

function re_sub :: "item list \<Rightarrow> (string \<Rightarrow> nat list \<Rightarrow> string) \<Rightarrow> string \<Rightarrow> string" where
  "re_sub p repl [] = []"
| "re_sub p repl (c # cs) =
     (case (if p = [] then None else re_match p (c # cs)) of
        None \<Rightarrow> c # re_sub p repl cs
      | Some sp \<Rightarrow> repl (c # cs) sp @ re_sub p repl (drop (sum_list sp) (c # cs)))"
  by pat_completeness auto
termination
proof (relation "measure (\<lambda>(p, repl, s). length s)")
  fix p :: "item list" and repl :: "string \<Rightarrow> nat list \<Rightarrow> string" and c cs sp
  assume "(if p = [] then None else re_match p (c # cs)) = Some sp"
  then have "p \<noteq> []" and "re_match p (c # cs) = Some sp"
    by (auto split: if_splits)
  from re_match_pos [OF this(2) this(1)]
  show "((p, repl, drop (sum_list sp) (c # cs)), (p, repl, c # cs)) \<in> measure (\<lambda>(p, repl, s). length s)"
    by simp
qed simp_all

section \<open>BaseThermal\<close>

text \<open>
  Iterating over the open file gives its lines, each with its newline; the last line
  has none when the file does not end in one.
\<close>

fun file_lines :: "string \<Rightarrow> string list" where
  "file_lines [] = []"
| "file_lines (c # cs) =
     (if c = CHR 0x0A then [c] # file_lines cs
      else (case file_lines cs of [] \<Rightarrow> [[c]] | l # ls \<Rightarrow> (c # l) # ls))"

text \<open>
  \<open>self.unique_word\<close> is handed to \<open>re.search\<close>: the model takes it as the compiled
  pattern.  \<open>re.search(self.unique_word, line)\<close> is true when there is a match.
\<close>

definition selected :: "item list \<Rightarrow> string \<Rightarrow> bool" where
  "selected unique_word line \<longleftrightarrow> re_search unique_word line \<noteq> None"

subsection \<open>get_trace_array_lengths\<close>

text \<open>\<open>r"([A-Za-z0-9_]+)={([^}]+)}"\<close>\<close>

definition pat_array :: "item list" where
  "pat_array = [Plus word_char, Lit CHR ''='', Lit CHR ''{'', PlusNot CHR ''}'', Lit CHR ''}'']"

text \<open>
  \<open>ret[array_name]\<close> on the \<open>defaultdict(int)\<close>: the value, and the dictionary with
  the key stored when it was missing.
\<close>

definition dd_get :: "(string \<rightharpoonup> int) \<Rightarrow> string \<Rightarrow> int \<times> (string \<rightharpoonup> int)" where
  "dd_get ret k = (case ret k of None \<Rightarrow> (0, ret(k \<mapsto> 0)) | Some v \<Rightarrow> (v, ret))"

text \<open>The inner \<open>while True\<close> loop over one line.\<close>

function scan_line :: "(string \<rightharpoonup> int) \<Rightarrow> string \<Rightarrow> (string \<rightharpoonup> int)" where
  "scan_line ret line =
     (case re_search pat_array line of
        None \<Rightarrow> ret
      | Some m \<Rightarrow>
          (let array_name = m_group line m 0 1;
               array_elements = m_group line m 3 1;
               array_len = int (length (split_on CHR '' '' array_elements));
               (cur, ret1) = dd_get ret array_name;
               ret2 = (if array_len > cur then ret1(array_name \<mapsto> array_len) else ret1)
           in scan_line ret2 (drop (m_end m) line)))"
  by pat_completeness auto
termination
proof (relation "measure (\<lambda>(ret, line). length line)")
  fix ret :: "string \<rightharpoonup> int" and line m x xa xb xc y xd
  assume "re_search pat_array line = Some m"
  from re_search_bounds [OF this]
  show "((xd, drop (m_end m) line), (ret, line)) \<in> measure (\<lambda>(ret, line). length line)"
    by (auto simp: pat_array_def)
qed simp

declare scan_line.simps [simp del]

definition get_trace_array_lengths :: "item list \<Rightarrow> string \<Rightarrow> pydict" where
  "get_trace_array_lengths unique_word fin =
     DefaultDict
       (fold (\<lambda>line ret. if \<not> selected unique_word line then ret else scan_line ret line)
          (file_lines fin) Map.empty)"

subsection \<open>__parse_into_csv\<close>

text \<open>
  \<open>r"([0-9]+\.[0-9]+):"\<close>, \<open>r"[A-Za-z0-9_]+="\<close>, \<open>r"[A-Za-z0-9_]+=([^ {]+)"\<close>,
  \<open>r"([A-Za-z0-9_]+)=[^ ]+"\<close> and \<open>r"[A-Za-z0-9_]+=\{\} "\<close>.
\<close>

definition pat_timestamp :: "item list" where
  "pat_timestamp = [Plus digit, Lit CHR ''.'', Plus digit, Lit CHR '':'']"

definition pat_data_start :: "item list" where
  "pat_data_start = [Plus word_char, Lit CHR ''='']"

definition pat_data :: "item list" where
  "pat_data = [Plus word_char, Lit CHR ''='', Plus (\<lambda>x. x \<noteq> CHR '' '' \<and> x \<noteq> CHR ''{'')]"

definition pat_header :: "item list" where
  "pat_header = [Plus word_char, Lit CHR ''='', PlusNot CHR '' '']"

definition pat_empty_array :: "item list" where
  "pat_empty_array = [Plus word_char, Lit CHR ''='', Lit CHR ''{'', Lit CHR ''}'', Lit CHR '' '']"

text \<open>The replacement \<open>r"\1"\<close> for a group that is item \<open>n\<close> of the pattern, and a
  constant replacement.\<close>

definition repl_group :: "nat \<Rightarrow> string \<Rightarrow> nat list \<Rightarrow> string" where
  "repl_group n s sp = m_group s (0, sp) n 1"

definition repl_const :: "string \<Rightarrow> string \<Rightarrow> nat list \<Rightarrow> string" where
  "repl_const r s sp = r"

text \<open>
  The body of the \<open>for\<close> loop for one selected line, in two parts.  Lines 149 to
  160: the timestamp and the payload \<open>data_str\<close> with its empty arrays removed and
  its arrays exploded.  \<open>None\<close> is a call of \<open>trace_parser_explode_array\<close> that does
  not return.
\<close>

definition explode_line :: "pydict \<Rightarrow> string \<Rightarrow> (error + string \<times> string) option" where
  "explode_line array_lengths line0 =
     (let line = butlast line0 in
      case re_search pat_timestamp line of
        None \<Rightarrow> Some (Inl AttributeError)
      | Some timestamp_match \<Rightarrow>
     (let timestamp = m_group line timestamp_match 0 3 in
      case re_search pat_data_start line of
        None \<Rightarrow> Some (Inl AttributeError)
      | Some start_match \<Rightarrow>
     (let data_start_idx = fst start_match;
          data_str0 = drop data_start_idx line;
          data_str1 = re_sub pat_empty_array (repl_const []) data_str0
      in case trace_parser_explode_array data_str1 array_lengths of
        None \<Rightarrow> None
      | Some (Inl e) \<Rightarrow> Some (Inl e)
      | Some (Inr data_str) \<Rightarrow> Some (Inr (timestamp, data_str)))))"

text \<open>
  Lines 162 to 173: the header, from the first selected line only, and the row.  The
  state is the local \<open>header\<close> and \<open>self.data_csv\<close>.
\<close>

definition header_of :: "string \<Rightarrow> string" where
  "header_of data_str =
     (let header1 = re_sub pat_header (repl_group 0) data_str;
          header2 = re_sub [Lit CHR '' ''] (repl_const '','') header1
      in ''Time,'' @ header2 @ [CHR 0x0A])"

definition row_of :: "string \<Rightarrow> string \<Rightarrow> string" where
  "row_of timestamp data_str =
     (let parsed_data1 = re_sub pat_data (repl_group 2) data_str;
          parsed_data2 = re_sub [Lit CHR '',''] (repl_const []) parsed_data1;
          parsed_data3 = re_sub [Lit CHR '' ''] (repl_const '','') parsed_data2
      in timestamp @ '','' @ parsed_data3 @ [CHR 0x0A])"

definition parse_line :: "pydict \<Rightarrow> string \<Rightarrow> string \<times> string \<Rightarrow> (error + string \<times> string) option" where
  "parse_line array_lengths line0 st =
     (case explode_line array_lengths line0 of
        None \<Rightarrow> None
      | Some (Inl e) \<Rightarrow> Some (Inl e)
      | Some (Inr (timestamp, data_str)) \<Rightarrow>
          (let (header, data_csv) =
                 (if fst st = [] then (header_of data_str, header_of data_str) else st)
           in Some (Inr (header, data_csv @ row_of timestamp data_str))))"

fun parse_lines :: "item list \<Rightarrow> pydict \<Rightarrow> string list \<Rightarrow> string \<times> string \<Rightarrow> (error + string \<times> string) option" where
  "parse_lines unique_word array_lengths [] st = Some (Inr st)"
| "parse_lines unique_word array_lengths (line # rest) st =
     (if \<not> selected unique_word line then parse_lines unique_word array_lengths rest st
      else (case parse_line array_lengths line st of
              None \<Rightarrow> None
            | Some (Inl e) \<Rightarrow> Some (Inl e)
            | Some (Inr st') \<Rightarrow> parse_lines unique_word array_lengths rest st'))"

text \<open>
  The table: pandas' \<open>DataFrame\<close> as its index (with the index's name, if it has
  one) and its columns in order, each a label and the column's cells.  The cells are
  of a type \<open>'v\<close> with the arithmetic pandas applies to them (\<open>-\<close>) and the numbers
  \<open>0, 1, ...\<close> of a default index.
\<close>

record 'v frame =
  index_name :: "string option"
  index :: "'v list"
  columns :: "(string \<times> 'v list) list"

definition DataFrame :: "'v frame" where
  "DataFrame = \<lparr>index_name = None, index = [], columns = []\<rparr>"

text \<open>The directory \<open>basepath\<close>: the content of \<open>trace.txt\<close> and of \<open>trace.dat\<close>
  (\<open>None\<close> when \<open>os.path.isfile\<close> is false), and how many times \<open>trace-cmd report\<close>
  has been run there.\<close>

record world =
  trace_txt :: "string option"
  trace_dat :: "string option"
  cmd_runs :: nat

text \<open>A \<open>BaseThermal\<close> object (its \<open>basepath\<close> is the \<open>world\<close>).\<close>

record 'v thermal =
  data_csv :: string
  data_frame :: "'v frame"
  unique_word :: "item list"

text \<open>\<open>open(fin_fname)\<close> raises \<open>IOError\<close> when there is no such file.\<close>

definition parse_into_csv :: "'v thermal \<Rightarrow> world \<Rightarrow> (error + 'v thermal) option" where
  "parse_into_csv self w =
     (case trace_txt w of
        None \<Rightarrow> Some (Inl IOError)
      | Some fin \<Rightarrow>
          (let array_lengths = get_trace_array_lengths (unique_word self) fin in
           case parse_lines (unique_word self) array_lengths (file_lines fin) ([], data_csv self) of
             None \<Rightarrow> None
           | Some (Inl e) \<Rightarrow> Some (Inl e)
           | Some (Inr st) \<Rightarrow> Some (Inr (self\<lparr>data_csv := snd st\<rparr>))))"

subsection \<open>The pandas operations the class uses\<close>





text \<open>\<open>df.set_index(label, inplace=True)\<close>: the column leaves the columns and becomes
  the index.\<close>

definition set_index :: "'v frame \<Rightarrow> string \<Rightarrow> error + 'v frame" where
  "set_index df label =
     (case map_of (columns df) label of
        None \<Rightarrow> Inl KeyError
      | Some col \<Rightarrow>
          Inr \<lparr>index_name = Some label, index = col,
               columns = filter (\<lambda>(l, c). l \<noteq> label) (columns df)\<rparr>)"

subsection \<open>__create_data_frame, normalize_time, __run_trace_cmd_report, __init__\<close>

text \<open>
  \<open>pd.read_csv\<close> is pandas' own parser: the model takes it as the parameter
  \<open>read_csv\<close>.  \<open>self.data_csv is ""\<close> holds exactly when no line was selected:
  \<open>data_csv\<close> is then still the \<open>""\<close> that \<open>__init__\<close> stored.
\<close>

definition create_data_frame :: "(string \<Rightarrow> error + 'v frame) \<Rightarrow> 'v thermal \<Rightarrow> error + 'v thermal" where
  "create_data_frame read_csv self =
     (if data_csv self = [] then Inr (self\<lparr>data_frame := DataFrame\<rparr>)
      else (case read_csv (data_csv self) of
              Inl e \<Rightarrow> Inl e
            | Inr df \<Rightarrow>
                (case set_index df ''Time'' of
                   Inl e \<Rightarrow> Inl e
                 | Inr df' \<Rightarrow> Inr (self\<lparr>data_frame := df'\<rparr>))))"


text \<open>
  \<open>trace-cmd report\<close> is the parameter \<open>trace_cmd\<close>: from the content of
  \<open>trace.dat\<close> its output, or the exception of \<open>check_output\<close>.  The result is the
  directory afterwards and the exception raised, if any.
\<close>

definition run_trace_cmd_report :: "(string \<Rightarrow> error + string) \<Rightarrow> world \<Rightarrow> world \<times> error option" where
  "run_trace_cmd_report trace_cmd w =
     (case trace_dat w of
        None \<Rightarrow> (w, Some IOError)
      | Some dat \<Rightarrow>
          (case trace_cmd dat of
             Inl e \<Rightarrow> (w\<lparr>cmd_runs := Suc (cmd_runs w)\<rparr>, Some e)
           | Inr out \<Rightarrow> (w\<lparr>cmd_runs := Suc (cmd_runs w), trace_txt := Some out\<rparr>, None)))"

text \<open>
  \<open>BaseThermal.__init__\<close>: the directory as the constructor leaves it, and the
  outcome: \<open>None\<close> when the constructor does not return, the exception, or the object.
\<close>

definition init ::
  "(string \<Rightarrow> error + string) \<Rightarrow> (string \<Rightarrow> error + 'v frame) \<Rightarrow> item list \<Rightarrow> world
     \<Rightarrow> world \<times> (error + 'v thermal) option" where
  "init trace_cmd read_csv unique_word' w =
     (let self = \<lparr>data_csv = [], data_frame = DataFrame, unique_word = unique_word'\<rparr>;
          (w1, raised) = (if trace_txt w = None then run_trace_cmd_report trace_cmd w else (w, None))
      in case raised of
           Some e \<Rightarrow> (w1, Some (Inl e))
         | None \<Rightarrow>
             (w1, case parse_into_csv self w1 of
                    None \<Rightarrow> None
                  | Some (Inl e) \<Rightarrow> Some (Inl e)
                  | Some (Inr self1) \<Rightarrow> Some (create_data_frame read_csv self1)))"

text \<open>The markers of the two subclasses, \<open>Thermal\<close> and \<open>ThermalGovernor\<close>; neither
  has a character that is special in a regular expression.\<close>

definition literal :: "string \<Rightarrow> item list" where
  "literal w = map Lit w"

definition Thermal_unique_word :: "item list" where
  "Thermal_unique_word = literal ''thermal_temperature:''"

definition ThermalGovernor_unique_word :: "item list" where
  "ThermalGovernor_unique_word = literal ''thermal_power_allocator:''"

subsection \<open>The marker as a regular expression\<close>

text \<open>
  \<open>self.unique_word\<close> is a string that \<open>re.search\<close> compiles.  \<open>re_compile\<close> is that
  compilation for the strings made of ordinary characters and \<open>.\<close> (any character but
  a newline); the other characters that are special in Python's regular expressions
  are not covered (\<open>None\<close>).
\<close>

definition re_special :: "char \<Rightarrow> bool" where
  "re_special c \<longleftrightarrow> c \<in> set (''.^$*+?{}[]|()'' @ [CHR 0x5C])"

definition compile_char :: "char \<Rightarrow> item option" where
  "compile_char c =
     (if c = CHR ''.'' then Some (One (\<lambda>x. x \<noteq> CHR 0x0A))
      else if re_special c then None
      else Some (Lit c))"

definition re_compile :: "string \<Rightarrow> item list option" where
  "re_compile w = those (map compile_char w)"

section \<open>Notions used to state the properties\<close>

subsection \<open>What a match is\<close>

text \<open>
  \<open>fits p s sp\<close>: the spans \<open>sp\<close> cut a prefix of \<open>s\<close> into one piece for each item of
  \<open>p\<close>, a single character of the class for \<open>One\<close> and one or more for \<open>Plus\<close>.
  \<open>re_match\<close> finds such spans whenever there are some.
\<close>

fun fits :: "item list \<Rightarrow> string \<Rightarrow> nat list \<Rightarrow> bool" where
  "fits [] s sp = (sp = [])"
| "fits (One P # its) s sp =
     (case sp of [] \<Rightarrow> False
      | n # sp' \<Rightarrow> n = 1 \<and> (case s of [] \<Rightarrow> False | c # cs \<Rightarrow> P c \<and> fits its cs sp'))"
| "fits (Plus P # its) s sp =
     (case sp of [] \<Rightarrow> False
      | n # sp' \<Rightarrow> 0 < n \<and> n \<le> length s \<and> list_all P (take n s) \<and> fits its (drop n s) sp')"

subsection \<open>Literal containment\<close>

text \<open>Literal containment: \<open>marker in line\<close>.\<close>

fun is_substring :: "string \<Rightarrow> string \<Rightarrow> bool" where
  "is_substring w [] = (w = [])"
| "is_substring w (c # cs) = (take (length w) (c # cs) = w \<or> is_substring w cs)"

subsection \<open>The array tokens of a line\<close>

text \<open>
  The occurrences of \<open>name={elements}\<close> in a line: the leftmost match of
  \<open>pat_array\<close>, then the leftmost match in the rest of the line past it, and so on;
  each with its name and its elements.
\<close>

function occurrences :: "string \<Rightarrow> (string \<times> string) list" where
  "occurrences line =
     (case re_search pat_array line of
        None \<Rightarrow> []
      | Some m \<Rightarrow> (m_group line m 0 1, m_group line m 3 1) # occurrences (drop (m_end m) line))"
  by pat_completeness auto

termination
proof (relation "measure length")
  fix line m
  assume "re_search pat_array line = Some m"
  from re_search_bounds [OF this]
  show "(drop (m_end m) line, line) \<in> measure length"
    by (auto simp: pat_array_def)
qed simp

declare occurrences.simps [simp del]

definition all_occurrences :: "item list \<Rightarrow> string \<Rightarrow> (string \<times> string) list" where
  "all_occurrences marker fin =
     concat (map occurrences (filter (selected marker) (file_lines fin)))"

text \<open>The element counts seen for a name, with the elements cut at single spaces as
  the source cuts them.\<close>

definition seen :: "string \<Rightarrow> (string \<times> string) list \<Rightarrow> int list" where
  "seen name occs =
     map (\<lambda>(n, els). int (length (split_on CHR '' '' els))) (filter (\<lambda>(n, els). n = name) occs)"

definition counts_seen :: "item list \<Rightarrow> string \<Rightarrow> string \<Rightarrow> int list" where
  "counts_seen marker fin name = seen name (all_occurrences marker fin)"

text \<open>The white-space-separated tokens of a string, as Python's \<open>split()\<close> without
  an argument gives them.\<close>

definition whitespace :: "char \<Rightarrow> bool" where
  "whitespace c \<longleftrightarrow> c \<in> set [CHR '' '', CHR 0x09, CHR 0x0A, CHR 0x0B, CHR 0x0C, CHR 0x0D]"

fun split_where :: "(char \<Rightarrow> bool) \<Rightarrow> string \<Rightarrow> string list" where
  "split_where P [] = [[]]"
| "split_where P (c # cs) =
     (if P c then [] # split_where P cs
      else (case split_where P cs of [] \<Rightarrow> [[c]] | w # ws \<Rightarrow> (c # w) # ws))"

definition ws_tokens :: "string \<Rightarrow> string list" where
  "ws_tokens s = filter (\<lambda>t. t \<noteq> []) (split_where whitespace s)"

text \<open>The element counts seen for a name, with the elements cut at white space; and the
  maximum of the counts, for a name that has some.\<close>

definition ws_counts_seen :: "item list \<Rightarrow> string \<Rightarrow> string \<Rightarrow> int list" where
  "ws_counts_seen marker fin name =
     map (\<lambda>(n, els). int (length (ws_tokens els)))
       (filter (\<lambda>(n, els). n = name) (all_occurrences marker fin))"

definition max_or_absent :: "int list \<Rightarrow> int option" where
  "max_or_absent counts = (if counts = [] then None else Some (Max (set counts)))"

text \<open>Lines 121 to 124 of the source for one occurrence: the length is recorded when it
  exceeds the one recorded so far.\<close>

definition record_len :: "string \<times> string \<Rightarrow> (string \<rightharpoonup> int) \<Rightarrow> (string \<rightharpoonup> int)" where
  "record_len occ ret =
     (let array_len = int (length (split_on CHR '' '' (snd occ)));
          (cur, ret1) = dd_get ret (fst occ)
      in if array_len > cur then ret1(fst occ \<mapsto> array_len) else ret1)"

subsection \<open>Payloads of well-formed tokens\<close>

text \<open>
  A payload as the specification describes it: tokens separated by single spaces, each
  a scalar \<open>key=value\<close> without braces or an array \<open>name={e1 ... ek}\<close> whose elements
  are separated by single spaces.  \<open>indexed\<close> is the list of scalars that replaces an
  array: \<open>name0=e1 ... name(k-1)=ek\<close>, then \<open>name(k)=0 ... name(len-1)=0\<close>.
\<close>

datatype token = Scalar string | Array string "string list"

fun join_sp :: "string list \<Rightarrow> string" where
  "join_sp [] = []"
| "join_sp [x] = x"
| "join_sp (x # y # ys) = x @ '' '' @ join_sp (y # ys)"

fun render :: "token \<Rightarrow> string" where
  "render (Scalar t) = t"
| "render (Array name elems) = name @ ''={'' @ join_sp elems @ ''}''"

definition indexed :: "string \<Rightarrow> string list \<Rightarrow> int \<Rightarrow> string list" where
  "indexed name elems len =
     map (\<lambda>(i, v). name @ str_nat i @ ''='' @ v) (enumerate 0 elems)
     @ map (\<lambda>i. name @ str_nat i @ ''=0'') [length elems ..< nat len]"

fun exploded :: "pydict \<Rightarrow> token \<Rightarrow> string" where
  "exploded w (Scalar t) = t"
| "exploded w (Array name elems) =
     (case getitem w name of Inr len \<Rightarrow> join_sp (indexed name elems len) | Inl e \<Rightarrow> [])"

definition elem_char :: "char \<Rightarrow> bool" where
  "elem_char c \<longleftrightarrow> c \<notin> set [CHR '' '', CHR ''{'', CHR ''}'', CHR 0x0A]"

fun explodable :: "pydict \<Rightarrow> token \<Rightarrow> bool" where
  "explodable w (Scalar t) = (CHR '' '' \<notin> set t \<and> CHR ''{'' \<notin> set t)"
| "explodable w (Array name elems) =
     (name \<noteq> [] \<and> list_all word_char name \<and> join_sp elems \<noteq> [] \<and>
      list_all (list_all elem_char) elems \<and>
      (case getitem w name of Inr len \<Rightarrow> True | Inl e \<Rightarrow> False))"

subsection \<open>Well-formed array syntax\<close>




definition opens :: "string \<Rightarrow> nat" where
  "opens s = length (filter (\<lambda>c. c = CHR ''{'') s)"

subsection \<open>The columns of a field\<close>

text \<open>
  The columns of a normalized payload are the names that \<open>header_of\<close> derives from
  it; those of a field \<open>name\<close> are the ones that are \<open>name\<close> followed by an index.
\<close>

definition is_indexed :: "string \<Rightarrow> string \<Rightarrow> bool" where
  "is_indexed name col \<longleftrightarrow>
     length name < length col \<and> take (length name) col = name \<and>
     list_all digit (drop (length name) col)"

definition header_columns :: "string \<Rightarrow> string list" where
  "header_columns data_str = split_on CHR '' '' (re_sub pat_header (repl_group 0) data_str)"

definition field_columns :: "string \<Rightarrow> string \<Rightarrow> nat" where
  "field_columns name data_str = length (filter (is_indexed name) (header_columns data_str))"

subsection \<open>Inputs of the examples\<close>

text \<open>
  A fresh object as \<open>__init__\<close> sets it up, a directory that holds \<open>trace.txt\<close> only,
  a \<open>trace-cmd\<close> that fails, two stand-ins for \<open>pd.read_csv\<close> (one fails, one returns
  the table of the time-shift example), and two trace files.
\<close>

definition newline :: string where
  "newline = [CHR 0x0A]"

definition tab :: string where
  "tab = [CHR 0x09]"

definition new_thermal :: "item list \<Rightarrow> 'v thermal" where
  "new_thermal unique_word' = \<lparr>data_csv = [], data_frame = DataFrame, unique_word = unique_word'\<rparr>"

definition dir_with_txt :: "string \<Rightarrow> world" where
  "dir_with_txt fin = \<lparr>trace_txt = Some fin, trace_dat = None, cmd_runs = 0\<rparr>"

definition no_trace_cmd :: "string \<Rightarrow> error + string" where
  "no_trace_cmd dat = Inl CalledProcessError"

definition no_read_csv :: "string \<Rightarrow> error + real frame" where
  "no_read_csv csv = Inl ValueError"


definition two_widths :: string where
  "two_widths = ''1.0: m: p={1 2 3} x=1'' @ newline @ ''2.0: m: p={4} x=1'' @ newline"


section \<open>A parse that selects no line\<close>

lemma parse_lines_none_selected:
  "\<forall>line \<in> set ls. \<not> selected uw line \<Longrightarrow> parse_lines uw al ls st = Some (Inr st)"
  by (induction ls) simp_all

lemma parse_into_csv_none_selected:
  assumes "trace_txt w = Some fin"
    and "\<forall>line \<in> set (file_lines fin). \<not> selected uw line"
  shows "parse_into_csv (new_thermal uw) w = Some (Inr (new_thermal uw))"
  using assms
  by (simp add: parse_into_csv_def new_thermal_def parse_lines_none_selected)

lemma other_event_not_selected:
  "\<forall>line \<in> set (file_lines (''100.0: cpu_idle: state=1'' @ newline)). \<not> selected Thermal_unique_word line"
  by code_simp

section \<open>What the matcher finds\<close>

lemma take_le_takeWhile:
  "k \<le> length (takeWhile P s) \<Longrightarrow> list_all P (take k s)"
proof (induction s arbitrary: k)
  case Nil
  then show ?case by simp
next
  case (Cons c cs)
  then show ?case by (cases k) (auto split: if_splits)
qed

lemma takeWhile_ge_take:
  "list_all P (take k s) \<Longrightarrow> k \<le> length s \<Longrightarrow> k \<le> length (takeWhile P s)"
proof (induction s arbitrary: k)
  case Nil
  then show ?case by simp
next
  case (Cons c cs)
  then show ?case by (cases k) auto
qed

lemma re_match_fits: "re_match p s = Some sp \<Longrightarrow> fits p s sp"
proof (induction p arbitrary: s sp)
  case Nil
  then show ?case by simp
next
  case (Cons it its)
  show ?case
  proof (cases it)
    case (One P)
    with Cons.prems obtain c cs sp' where "s = c # cs" "sp = 1 # sp'" "P c"
      "re_match its cs = Some sp'"
      by (auto split: list.splits if_splits)
    with Cons.IH [of cs sp'] One show ?thesis by simp
  next
    case (Plus P)
    with Cons.prems have
      "backtrack (\<lambda>k. map_option ((#) k) (re_match its (drop k s))) (length (takeWhile P s)) = Some sp"
      by simp
    from backtrack_Some [OF this] obtain k sp' where k: "0 < k" "k \<le> length (takeWhile P s)"
      and sp: "sp = k # sp'" and m: "re_match its (drop k s) = Some sp'"
      by auto
    have "length (takeWhile P s) \<le> length s" by (rule length_takeWhile_le)
    with k take_le_takeWhile [OF k(2)] Cons.IH [OF m] sp Plus show ?thesis by simp
  qed
qed

lemma backtrack_complete:
  "0 < k \<Longrightarrow> k \<le> n \<Longrightarrow> f k \<noteq> None \<Longrightarrow> backtrack f n \<noteq> None"
proof (induction n)
  case 0
  then show ?case by simp
next
  case (Suc n)
  show ?case
  proof (cases "k = Suc n")
    case True
    with Suc.prems show ?thesis by auto
  next
    case False
    with Suc.prems have "k \<le> n" by simp
    with Suc have "backtrack f n \<noteq> None" by simp
    then show ?thesis by (auto split: option.splits)
  qed
qed

lemma fits_re_match: "fits p s sp \<Longrightarrow> re_match p s \<noteq> None"
proof (induction p arbitrary: s sp)
  case Nil
  then show ?case by simp
next
  case (Cons it its)
  show ?case
  proof (cases it)
    case (One P)
    with Cons.prems obtain c cs sp' where "s = c # cs" "P c" "fits its cs sp'"
      by (auto split: list.splits)
    with Cons.IH [of cs sp'] One show ?thesis by auto
  next
    case (Plus P)
    with Cons.prems obtain n sp' where n: "0 < n" "n \<le> length s" "list_all P (take n s)"
      and f: "fits its (drop n s) sp'"
      by (auto split: list.splits)
    from Cons.IH [OF f] have "map_option ((#) n) (re_match its (drop n s)) \<noteq> None" by simp
    from backtrack_complete [of n "length (takeWhile P s)"
        "\<lambda>k. map_option ((#) k) (re_match its (drop k s))", OF n(1) takeWhile_ge_take [OF n(3) n(2)] this]
    show ?thesis using Plus by simp
  qed
qed

lemma re_search_fits:
  "re_search p s = Some m \<Longrightarrow>
     fst m \<le> length s \<and> fits p (drop (fst m) s) (snd m) \<and>
     (\<forall>j < fst m. \<forall>sp. \<not> fits p (drop j s) sp)"
proof (induction s arbitrary: m)
  case Nil
  then show ?case by (auto dest: re_match_fits)
next
  case (Cons c cs)
  show ?case
  proof (cases "re_match p (c # cs)")
    case (Some sp)
    with Cons.prems re_match_fits [OF Some] show ?thesis by auto
  next
    case None
    with Cons.prems obtain m' where m': "re_search p cs = Some m'" "m = (Suc (fst m'), snd m')"
      by (auto split: prod.splits)
    have no: "\<not> fits p (c # cs) sp" for sp
      using None fits_re_match [of p "c # cs" sp] by auto
    have "\<not> fits p (drop j (c # cs)) sp" if "j < fst m" for j sp
    proof (cases j)
      case 0
      with no show ?thesis by simp
    next
      case (Suc j')
      with that m' have "j' < fst m'" by simp
      with Cons.IH [OF m'(1)] Suc show ?thesis by simp
    qed
    with Cons.IH [OF m'(1)] m' show ?thesis by simp
  qed
qed

lemma fits_re_search:
  "fits p (drop j s) sp \<Longrightarrow> j \<le> length s \<Longrightarrow> \<exists>m. re_search p s = Some m \<and> fst m \<le> j"
proof (induction s arbitrary: j)
  case Nil
  then show ?case using fits_re_match [of p "[]" sp] by auto
next
  case (Cons c cs)
  show ?case
  proof (cases "re_match p (c # cs)")
    case (Some a)
    then show ?thesis by simp
  next
    case None
    then have "j \<noteq> 0" using Cons.prems(1) fits_re_match [of p "c # cs" sp] by (cases j) auto
    then obtain j' where j: "j = Suc j'" by (cases j) auto
    with Cons.prems have "fits p (drop j' cs) sp" "j' \<le> length cs" by simp_all
    from Cons.IH [OF this] obtain m where "re_search p cs = Some m" "fst m \<le> j'" by auto
    with None j show ?thesis by (auto split: prod.splits)
  qed
qed

section \<open>Literal markers\<close>

lemma is_substring_iff: "is_substring w s \<longleftrightarrow> (\<exists>pre post. s = pre @ w @ post)"
proof (induction s)
  case Nil
  then show ?case by auto
next
  case (Cons c cs)
  show ?case
  proof
    assume "is_substring w (c # cs)"
    then consider "take (length w) (c # cs) = w" | "is_substring w cs" by auto
    then show "\<exists>pre post. c # cs = pre @ w @ post"
    proof cases
      case 1
      then have "c # cs = [] @ w @ drop (length w) (c # cs)"
        by (metis append_Nil append_take_drop_id)
      then show ?thesis by blast
    next
      case 2
      with Cons obtain pre post where "cs = pre @ w @ post" by auto
      then have "c # cs = (c # pre) @ w @ post" by simp
      then show ?thesis by blast
    qed
  next
    assume "\<exists>pre post. c # cs = pre @ w @ post"
    then obtain pre post where e: "c # cs = pre @ w @ post" by auto
    show "is_substring w (c # cs)"
    proof (cases pre)
      case Nil
      with e have "take (length w) (c # cs) = w" by simp
      then show ?thesis by simp
    next
      case (Cons a pre')
      with e have "cs = pre' @ w @ post" by simp
      with Cons.IH show ?thesis by auto
    qed
  qed
qed

lemma re_match_literal:
  "re_match (literal w) s =
     (if take (length w) s = w then Some (replicate (length w) 1) else None)"
proof (induction w arbitrary: s)
  case Nil
  then show ?case by (simp add: literal_def)
next
  case (Cons a w)
  then show ?case by (cases s) (auto simp: literal_def)
qed

lemma selected_literal: "selected (literal w) s \<longleftrightarrow> is_substring w s"
  by (induction s) (auto simp: selected_def re_match_literal split: option.splits)

lemma re_compile_literal:
  "list_all (\<lambda>c. \<not> re_special c) w \<Longrightarrow> re_compile w = Some (literal w)"
proof (induction w)
  case Nil
  then show ?case by (simp add: re_compile_def literal_def)
next
  case (Cons a w)
  then have "a \<noteq> CHR ''.''" by (auto simp: re_special_def)
  with Cons show ?case by (simp add: re_compile_def literal_def compile_char_def)
qed

section \<open>The prescanner computes the maximum\<close>

lemma scan_line_step:
  "re_search pat_array line = Some m \<Longrightarrow>
   scan_line ret line
   = scan_line (record_len (m_group line m 0 1, m_group line m 3 1) ret) (drop (m_end m) line)"
  by (simp add: scan_line.simps [of ret line] record_len_def Let_def split: prod.splits)

lemma scan_line_fold: "scan_line ret line = fold record_len (occurrences line) ret"
proof (induction line arbitrary: ret rule: occurrences.induct)
  case (1 line)
  show ?case
  proof (cases "re_search pat_array line")
    case None
    then show ?thesis by (simp add: scan_line.simps [of ret line] occurrences.simps [of line])
  next
    case (Some m)
    from "1.IH" [OF Some] scan_line_step [OF Some, of ret] Some show ?thesis
      by (simp add: occurrences.simps [of line])
  qed
qed

lemma lines_fold:
  "fold (\<lambda>line ret. if \<not> selected uw line then ret else scan_line ret line) ls ret
   = fold record_len (concat (map occurrences (filter (selected uw) ls))) ret"
  by (induction ls arbitrary: ret) (simp_all add: scan_line_fold)

lemma split_on_nonempty: "split_on d s \<noteq> []"
  by (induction s) (auto split: list.splits)

lemma record_len_other: "fst occ \<noteq> name \<Longrightarrow> record_len occ ret name = ret name"
  by (auto simp: record_len_def dd_get_def Let_def split: option.splits)

lemma record_len_same:
  "record_len (name, els) ret name =
     Some (max (int (length (split_on CHR '' '' els))) (case ret name of None \<Rightarrow> 0 | Some v \<Rightarrow> v))"
  by (auto simp: record_len_def dd_get_def Let_def split: option.splits)

lemma seen_positive: "c \<in> set (seen name occs) \<Longrightarrow> 0 < c"
  using split_on_nonempty by (auto simp: seen_def)

lemma fold_record_len:
  "fold record_len occs ret name =
     (if seen name occs = [] then ret name
      else Some (max (Max (set (seen name occs))) (case ret name of None \<Rightarrow> 0 | Some v \<Rightarrow> v)))"
proof (induction occs arbitrary: ret)
  case Nil
  then show ?case by (simp add: seen_def)
next
  case (Cons occ occs)
  obtain n els where occ: "occ = (n, els)" by (cases occ)
  show ?case
  proof (cases "n = name")
    case False
    then have "seen name (occ # occs) = seen name occs" by (simp add: seen_def occ)
    with Cons [of "record_len occ ret"] False occ show ?thesis
      by (simp add: record_len_other)
  next
    case True
    let ?c = "int (length (split_on CHR '' '' els))"
    have s: "seen name (occ # occs) = ?c # seen name occs" using True by (simp add: seen_def occ)
    show ?thesis
    proof (cases "seen name occs = []")
      case True
      have "0 < ?c" using split_on_nonempty [of "CHR '' ''" els] by (cases "split_on CHR '' '' els") auto
      with Cons [of "record_len occ ret"] True s \<open>n = name\<close> occ show ?thesis
        by (simp add: record_len_same)
    next
      case False
      then have "Max (set (?c # seen name occs)) = max ?c (Max (set (seen name occs)))"
        by simp
      with Cons [of "record_len occ ret"] False s \<open>n = name\<close> occ show ?thesis
        by (simp add: record_len_same max.assoc max.commute max.left_commute)
    qed
  qed
qed

lemma prescanner_entries:
  "entries (get_trace_array_lengths marker fin) name = max_or_absent (counts_seen marker fin name)"
proof -
  have "entries (get_trace_array_lengths marker fin) name
        = fold record_len (all_occurrences marker fin) Map.empty name"
    by (simp add: get_trace_array_lengths_def lines_fold all_occurrences_def)
  also have "\<dots> = max_or_absent (counts_seen marker fin name)"
  proof (cases "seen name (all_occurrences marker fin) = []")
    case True
    then show ?thesis by (simp add: fold_record_len max_or_absent_def counts_seen_def)
  next
    case False
    then obtain c where "c \<in> set (seen name (all_occurrences marker fin))"
      by (cases "seen name (all_occurrences marker fin)") auto
    from seen_positive [OF this] this
    have "0 < Max (set (seen name (all_occurrences marker fin)))"
      by (meson List.finite_set Max_ge less_le_trans)
    with False show ?thesis by (simp add: fold_record_len max_or_absent_def counts_seen_def)
  qed
  finally show ?thesis .
qed

section \<open>The time shift on a table indexed by Time\<close>




section \<open>The shape of the matches\<close>

lemma fits_Plus:
  "fits (Plus P # its) s sp \<longleftrightarrow>
     (\<exists>x rest sp'. s = x @ rest \<and> x \<noteq> [] \<and> list_all P x \<and> sp = length x # sp' \<and> fits its rest sp')"
proof
  assume "fits (Plus P # its) s sp"
  then obtain n sp' where "sp = n # sp'" "0 < n" "n \<le> length s" "list_all P (take n s)"
    "fits its (drop n s) sp'"
    by (auto split: list.splits)
  then have "s = take n s @ drop n s \<and> take n s \<noteq> [] \<and> list_all P (take n s) \<and>
             sp = length (take n s) # sp' \<and> fits its (drop n s) sp'"
    by auto
  then show "\<exists>x rest sp'. s = x @ rest \<and> x \<noteq> [] \<and> list_all P x \<and> sp = length x # sp' \<and> fits its rest sp'"
    by blast
next
  assume "\<exists>x rest sp'. s = x @ rest \<and> x \<noteq> [] \<and> list_all P x \<and> sp = length x # sp' \<and> fits its rest sp'"
  then show "fits (Plus P # its) s sp" by auto
qed

lemma fits_One:
  "fits (One P # its) s sp \<longleftrightarrow>
     (\<exists>c rest sp'. s = c # rest \<and> P c \<and> sp = 1 # sp' \<and> fits its rest sp')"
  by (auto split: list.splits)

lemma fits_pat_explodeD:
  "fits pat_explode t sp \<Longrightarrow>
     \<exists>x y rest. t = x @ ''={'' @ y @ ''}'' @ rest \<and> x \<noteq> [] \<and> CHR '' '' \<notin> set x \<and>
        y \<noteq> [] \<and> CHR ''}'' \<notin> set y \<and> sp = [length x, 1, 1, length y, 1]"
  unfolding pat_explode_def fits_Plus fits_One
  by (auto simp: list_all_iff)

lemma fits_pat_explodeI:
  "x \<noteq> [] \<Longrightarrow> CHR '' '' \<notin> set x \<Longrightarrow> y \<noteq> [] \<Longrightarrow> CHR ''}'' \<notin> set y \<Longrightarrow>
   fits pat_explode (x @ ''={'' @ y @ ''}'' @ rest) [length x, 1, 1, length y, 1]"
  by (auto simp: pat_explode_def list_all_iff)

lemma fits_pat_basenameD:
  "fits pat_basename t sp \<Longrightarrow>
     \<exists>b rest. t = b @ ''='' @ rest \<and> b \<noteq> [] \<and> CHR ''='' \<notin> set b \<and> sp = [length b, 1]"
  unfolding pat_basename_def fits_Plus fits_One
  by (auto simp: list_all_iff)

lemma fits_pat_basenameI:
  "b \<noteq> [] \<Longrightarrow> CHR ''='' \<notin> set b \<Longrightarrow> fits pat_basename (b @ ''='' @ rest) [length b, 1]"
  by (auto simp: pat_basename_def list_all_iff)

lemma fits_pat_valsD:
  "fits pat_vals t sp \<Longrightarrow>
     \<exists>v rest. t = ''{'' @ v @ ''}'' @ rest \<and> v \<noteq> [] \<and> CHR 0x0A \<notin> set v \<and> sp = [1, length v, 1]"
  unfolding pat_vals_def fits_Plus fits_One
  by (auto simp: list_all_iff)

lemma fits_pat_valsI:
  "v \<noteq> [] \<Longrightarrow> CHR 0x0A \<notin> set v \<Longrightarrow> fits pat_vals (''{'' @ v @ ''}'' @ rest) [1, length v, 1]"
  by (auto simp: pat_vals_def list_all_iff)

section \<open>Braces that follow an equals sign\<close>



lemma opens_Nil [simp]: "opens [] = 0"
  by (simp add: opens_def)











text \<open>Decimal numerals have digits only.\<close>

lemma digit_char_digit: "d < 10 \<Longrightarrow> digit (digit_char d)"
proof -
  assume "d < 10"
  then have "d \<in> set [0 ..< 10]" by simp
  also have "[0 ..< 10] = [0, 1, 2, 3, 4, 5, 6, 7, 8, 9 :: nat]" by (simp add: upt_rec)
  finally show ?thesis by (auto simp: digit_char_def digit_def)
qed

lemma str_nat_digits: "list_all digit (str_nat n)"
proof (induction n rule: str_nat.induct)
  case (1 n)
  show ?case
  proof (cases "n < 10")
    case True
    then show ?thesis by (subst str_nat.simps) (simp add: digit_char_digit)
  next
    case False
    with 1 show ?thesis by (subst str_nat.simps) (simp add: digit_char_digit)
  qed
qed

lemma digit_not_special:
  "digit c \<Longrightarrow> c \<noteq> CHR ''{'' \<and> c \<noteq> CHR ''}'' \<and> c \<noteq> CHR '' '' \<and> c \<noteq> CHR ''='' \<and> c \<noteq> CHR 0x0A"
  by (auto simp: digit_def)

lemma str_nat_no: 
  "CHR ''{'' \<notin> set (str_nat n)" "CHR ''}'' \<notin> set (str_nat n)" "CHR '' '' \<notin> set (str_nat n)"
  "CHR ''='' \<notin> set (str_nat n)"
  using str_nat_digits [of n] digit_not_special by (auto simp: list_all_iff)

section \<open>One pass of the loop of trace_parser_explode_array\<close>

lemma re_search_pat_explode:
  assumes "re_search pat_explode s = Some m"
  obtains pre x y rest where
    "s = pre @ (x @ ''={'' @ y @ ''}'') @ rest" "fst m = length pre"
    "snd m = [length x, 1, 1, length y, 1]"
    "x \<noteq> []" "CHR '' '' \<notin> set x" "y \<noteq> []" "CHR ''}'' \<notin> set y"
    "\<And>j sp. j < length pre \<Longrightarrow> \<not> fits pat_explode (drop j s) sp"
proof -
  from re_search_fits [OF assms] have i: "fst m \<le> length s"
    and f: "fits pat_explode (drop (fst m) s) (snd m)"
    and l: "\<And>j sp. j < fst m \<Longrightarrow> \<not> fits pat_explode (drop j s) sp"
    by auto
  from fits_pat_explodeD [OF f] obtain x y rest where
    d: "drop (fst m) s = x @ ''={'' @ y @ ''}'' @ rest" and
    r: "x \<noteq> []" "CHR '' '' \<notin> set x" "y \<noteq> []" "CHR ''}'' \<notin> set y"
       "snd m = [length x, 1, 1, length y, 1]"
    by blast
  have "s = take (fst m) s @ drop (fst m) s" by simp
  with d have s: "s = take (fst m) s @ (x @ ''={'' @ y @ ''}'') @ rest" by simp
  have len: "fst m = length (take (fst m) s)" using i by simp
  show thesis
    by (rule that [OF s len r(5) r(1-4)]) (use l len in auto)
qed










section \<open>Lists cut at a character\<close>

lemma join_sp_Cons: "join_sp (x # xs) = x @ (if xs = [] then [] else CHR '' '' # join_sp xs)"
  by (cases xs) simp_all

lemma split_on_no_sep: "d \<notin> set x \<Longrightarrow> split_on d x = [x]"
  by (induction x) auto

lemma split_on_append_sep:
  "d \<notin> set x \<Longrightarrow> split_on d (x @ d # r) = x # split_on d r"
  by (induction x) auto

lemma split_on_join_sp:
  "xs \<noteq> [] \<Longrightarrow> (\<And>x. x \<in> set xs \<Longrightarrow> CHR '' '' \<notin> set x) \<Longrightarrow>
   split_on CHR '' '' (join_sp xs) = xs"
proof (induction xs rule: join_sp.induct)
  case 1
  then show ?case by simp
next
  case (2 x)
  then show ?case by (simp add: split_on_no_sep)
next
  case (3 x y ys)
  then show ?case by (simp add: split_on_append_sep)
qed




lemma butlast_concat_sp:
  "xs \<noteq> [] \<Longrightarrow> butlast (concat (map (\<lambda>x. x @ '' '') xs)) = join_sp xs"
proof (induction xs rule: join_sp.induct)
  case 1
  then show ?case by simp
next
  case (2 x)
  then show ?case by simp
next
  case (3 x y ys)
  then show ?case by (simp add: butlast_append)
qed

text \<open>Two ways to cut a list at a character \<open>c\<close>.\<close>

lemma cut_trichotomy:
  assumes "xs @ c # ys = us @ c # vs"
  shows "(xs = us \<and> ys = vs) \<or> (\<exists>w. us = xs @ c # w \<and> ys = w @ c # vs) \<or>
         (\<exists>w. xs = us @ c # w \<and> vs = w @ c # ys)"
proof -
  from assms consider w where "xs = us @ w" "w @ c # ys = c # vs"
    | w where "xs @ w = us" "c # ys = w @ c # vs"
    by (auto simp: append_eq_append_conv2)
  then show ?thesis
  proof cases
    case 1
    then show ?thesis by (cases w) auto
  next
    case 2
    then show ?thesis by (cases w) auto
  qed
qed

lemma cut_first:
  assumes "xs @ c # ys = us @ c # vs" and "c \<notin> set xs" and "c \<notin> set us"
  shows "xs = us \<and> ys = vs"
  using cut_trichotomy [OF assms(1)] assms(2,3) by auto

lemma cut_after:
  assumes "a @ b = w @ c # r" and "c \<notin> set a"
  shows "\<exists>w'. w = a @ w' \<and> b = w' @ c # r"
proof -
  from assms(1) consider u where "a = w @ u" "u @ b = c # r" | u where "a @ u = w" "b = u @ c # r"
    by (auto simp: append_eq_append_conv2)
  then show ?thesis
  proof cases
    case 1
    show ?thesis
    proof (cases u)
      case Nil
      with 1 show ?thesis by auto
    next
      case (Cons x u')
      with 1 have "c \<in> set a" by auto
      with assms(2) show ?thesis by simp
    qed
  next
    case 2
    then show ?thesis by auto
  qed
qed

section \<open>The leftmost array of a payload\<close>

lemma prefix_split:
  assumes "p @ a = b @ w" and "length p \<le> length b"
  shows "\<exists>u. b = p @ u \<and> a = u @ w"
proof -
  from assms(1) have "take (length p) (b @ w) = p" by (metis append_eq_conv_conj)
  with assms(2) have p: "take (length p) b = p" by simp
  then have b: "b = p @ drop (length p) b" by (metis append_take_drop_id)
  with assms(1) have "p @ a = p @ (drop (length p) b @ w)" by (metis append.assoc)
  then have "a = drop (length p) b @ w" by simp
  with b show ?thesis by blast
qed

lemma no_open_no_match: "CHR ''{'' \<notin> set s \<Longrightarrow> re_search pat_explode s = None"
proof (rule ccontr)
  assume no: "CHR ''{'' \<notin> set s" and "re_search pat_explode s \<noteq> None"
  then obtain m where m: "re_search pat_explode s = Some m" by auto
  from re_search_fits [OF m] have "fits pat_explode (drop (fst m) s) (snd m)" by simp
  from fits_pat_explodeD [OF this] obtain x y rest where
    "drop (fst m) s = x @ ''={'' @ y @ ''}'' @ rest" by (elim exE conjE)
  then have "CHR ''{'' \<in> set (drop (fst m) s)" by simp
  then have "CHR ''{'' \<in> set s" by (rule in_set_dropD)
  with no show False by simp
qed

lemma search_first_array:
  assumes pre: "CHR ''{'' \<notin> set pre" "pre = [] \<or> last pre = CHR '' ''"
    and name: "name \<noteq> []" "CHR '' '' \<notin> set name" "CHR ''{'' \<notin> set name"
    and y: "y \<noteq> []" "CHR ''}'' \<notin> set y" "CHR ''{'' \<notin> set y"
    and post: "post = [] \<or> hd post = CHR '' ''"
  shows "\<exists>m. re_search pat_explode (pre @ (name @ ''={'' @ y @ ''}'') @ post) = Some m \<and>
             fst m = length pre \<and> snd m = [length name, 1, 1, length y, 1]"
proof -
  define s where "s = pre @ (name @ ''={'' @ y @ ''}'') @ post"
  have "drop (length pre) s = name @ ''={'' @ y @ ''}'' @ post" by (simp add: s_def)
  moreover have "fits pat_explode (name @ ''={'' @ y @ ''}'' @ post) [length name, 1, 1, length y, 1]"
    by (rule fits_pat_explodeI [OF name(1,2) y(1,2)])
  ultimately have fit: "fits pat_explode (drop (length pre) s) [length name, 1, 1, length y, 1]"
    by simp
  have "length pre \<le> length s" by (simp add: s_def)
  from fits_re_search [OF fit this] obtain m where m: "re_search pat_explode s = Some m"
    and le: "fst m \<le> length pre"
    by (elim exE conjE)
  obtain pre' x y' rest where
    s': "s = pre' @ (x @ ''={'' @ y' @ ''}'') @ rest" and i: "fst m = length pre'"
    and sp: "snd m = [length x, 1, 1, length y', 1]"
    and x: "x \<noteq> []" "CHR '' '' \<notin> set x" and y': "y' \<noteq> []" "CHR ''}'' \<notin> set y'"
    and "\<And>j sp. j < length pre' \<Longrightarrow> \<not> fits pat_explode (drop j s) sp"
    by (rule re_search_pat_explode [OF m]) (rule that)
  have "(pre @ name @ ''='') @ CHR ''{'' # (y @ ''}'' @ post) = s" by (simp add: s_def)
  also have "s = (pre' @ x @ ''='') @ CHR ''{'' # (y' @ ''}'' @ rest)" by (subst s') simp
  finally have A: "(pre @ name @ ''='') @ CHR ''{'' # (y @ ''}'' @ post)
           = (pre' @ x @ ''='') @ CHR ''{'' # (y' @ ''}'' @ rest)" .
  have noA: "CHR ''{'' \<notin> set (pre @ name @ ''='')" using pre(1) name(3) by simp
  have len: "length pre' \<le> length pre" using le i by simp
  have "pre' = pre \<and> x = name \<and> y' = y"
    using cut_trichotomy [OF A]
  proof (elim disjE conjE exE)
    assume same: "pre @ name @ ''='' = pre' @ x @ ''=''"
      "y @ ''}'' @ post = y' @ ''}'' @ rest"
    from same(1) have "pre' @ x = pre @ name" by simp
    from prefix_split [OF this len] obtain u where u: "pre = pre' @ u" "x = u @ name"
      by (elim exE conjE)
    have "u = []"
    proof (rule ccontr)
      assume ne: "u \<noteq> []"
      with u(1) pre(2) have "last u = CHR '' ''" by auto
      moreover have "last u \<in> set u" using ne by (rule last_in_set)
      ultimately show False using u(2) x(2) by simp
    qed
    with u have "pre' = pre" "x = name" by simp_all
    moreover from same(2) have "y @ CHR ''}'' # post = y' @ CHR ''}'' # rest" by simp
    from cut_first [OF this y(2) y'(2)] have "y' = y" by simp
    ultimately show ?thesis by simp
  next
    fix w
    assume later: "pre' @ x @ ''='' = (pre @ name @ ''='') @ CHR ''{'' # w"
      "y @ ''}'' @ post = w @ CHR ''{'' # y' @ ''}'' @ rest"
    from later(2) have e1: "(y @ ''}'') @ post = w @ CHR ''{'' # (y' @ ''}'' @ rest)" by simp
    have e2: "CHR ''{'' \<notin> set (y @ ''}'')" using y(3) by simp
    from cut_after [OF e1 e2] obtain w' where w': "w = (y @ ''}'') @ w'"
      "post = w' @ CHR ''{'' # (y' @ ''}'' @ rest)"
      by (elim exE conjE)
    from w'(2) post have "w' \<noteq> []" by (cases w') auto
    with w'(2) post have "hd w' = CHR '' ''" by (cases w') auto
    with \<open>w' \<noteq> []\<close> have "CHR '' '' \<in> set w'" by (cases w') auto
    with w'(1) have sp_w: "CHR '' '' \<in> set w" by simp
    from later(1) have e3: "pre' @ (x @ ''='') = (pre @ name @ ''={'') @ w" by simp
    have e4: "length pre' \<le> length (pre @ name @ ''={'')" using len by simp
    from prefix_split [OF e3 e4] obtain u where "x @ ''='' = u @ w" by (elim exE conjE)
    with sp_w have "CHR '' '' \<in> set (x @ ''='')" by simp
    with x(2) show ?thesis by simp
  next
    fix w
    assume "pre @ name @ ''='' = (pre' @ x @ ''='') @ CHR ''{'' # w"
    then have "CHR ''{'' \<in> set (pre @ name @ ''='')" by simp
    with noA show ?thesis by simp
  qed
  with m i sp have "re_search pat_explode s = Some m \<and>
      fst m = length pre \<and> snd m = [length name, 1, 1, length y, 1]"
    by simp
  then show ?thesis unfolding s_def by (rule exI)
qed

text \<open>What \<open>explode_match\<close> makes of a match that is one well-formed array.\<close>

lemma explode_match_token:
  assumes s: "s = pre @ (name @ ''={'' @ y @ ''}'') @ rest"
    and m: "fst m = length pre" "snd m = [length name, 1, 1, length y, 1]"
    and name: "name \<noteq> []" "CHR ''='' \<notin> set name" "CHR ''{'' \<notin> set name"
    and y: "y \<noteq> []" "CHR ''}'' \<notin> set y" "CHR 0x0A \<notin> set y"
    and w: "getitem w name = Inr len"
  shows "explode_match s w m
         = Inr (pre @ butlast (exploded_elems name (split_on CHR '' '' y)
                  @ exploded_zeros name (length (split_on CHR '' '' y)) len) @ rest)"
proof -
  define t where "t = name @ ''={'' @ y @ ''}''"
  have st: "s = pre @ t @ rest" using s by (simp add: t_def)
  have len_t: "sum_list (snd m) = length t" using m(2) by (simp add: t_def)
  have t1: "take (sum_list (snd m)) (drop (fst m) s) = t" using st m(1) len_t by simp
  have t2: "take (fst m) s = pre" using st m(1) by simp
  have t3: "drop (m_end m) s = rest" using st m(1) len_t by (simp add: m_end_def)
  \<comment> \<open>the base name\<close>
  have "fits pat_basename (name @ ''='' @ (''{'' @ y @ ''}'')) [length name, 1]"
    by (rule fits_pat_basenameI [OF name(1,2)])
  then have "fits pat_basename t [length name, 1]" by (simp add: t_def)
  from fits_re_match [OF this] obtain bsp where bm: "re_match pat_basename t = Some bsp" by auto
  from fits_pat_basenameD [OF re_match_fits [OF bm]] obtain b r1 where
    b: "t = b @ ''='' @ r1" "CHR ''='' \<notin> set b" "bsp = [length b, 1]"
    by (elim exE conjE)
  from b(1) have "name @ CHR ''='' # (''{'' @ y @ ''}'') = b @ CHR ''='' # r1" by (simp add: t_def)
  from cut_first [OF this name(2) b(2)] have "b = name" by simp
  with b(3) have bsp: "bsp = [length name, 1]" by simp
  have cb: "m_group t (0, bsp) 0 (Suc 0) = name" by (simp add: m_group_def bsp t_def)
  \<comment> \<open>the values\<close>
  have "drop (Suc (length name)) t = ''{'' @ y @ ''}'' @ []" by (simp add: t_def)
  moreover have "fits pat_vals (''{'' @ y @ ''}'' @ []) [1, length y, 1]"
    by (rule fits_pat_valsI [OF y(1,3)])
  ultimately have fitv: "fits pat_vals (drop (Suc (length name)) t) [1, length y, 1]" by simp
  have "Suc (length name) \<le> length t" by (simp add: t_def)
  from fits_re_search [OF fitv this] obtain vm where vm: "re_search pat_vals t = Some vm"
    and le: "fst vm \<le> Suc (length name)"
    by (elim exE conjE)
  from re_search_fits [OF vm] have j: "fst vm \<le> length t"
    and f: "fits pat_vals (drop (fst vm) t) (snd vm)"
    by auto
  from fits_pat_valsD [OF f] obtain v r2 where
    v: "drop (fst vm) t = ''{'' @ v @ ''}'' @ r2" "snd vm = [1, length v, 1]"
    by (elim exE conjE)
  have "(name @ ''='') @ CHR ''{'' # (y @ ''}'') = t" by (simp add: t_def)
  also have "t = take (fst vm) t @ drop (fst vm) t" by simp
  also have "drop (fst vm) t = CHR ''{'' # (v @ ''}'' @ r2)" using v(1) by simp
  finally have B: "(name @ ''='') @ CHR ''{'' # (y @ ''}'') = take (fst vm) t @ CHR ''{'' # (v @ ''}'' @ r2)" .
  have lt: "length (take (fst vm) t) = fst vm" using j by simp
  have vy: "fst vm = Suc (length name) \<and> v = y"
    using cut_trichotomy [OF B]
  proof (elim disjE conjE exE)
    assume same: "name @ ''='' = take (fst vm) t" "y @ ''}'' = v @ ''}'' @ r2"
    from same(1) have "length (name @ ''='') = length (take (fst vm) t)" by simp
    with lt have 1: "fst vm = Suc (length name)" by simp
    from same(2) have "y @ CHR ''}'' # [] = v @ CHR ''}'' # r2" by simp
    from cut_trichotomy [OF this] y(2) have "v = y" by auto
    with 1 show ?thesis by simp
  next
    fix u
    assume "take (fst vm) t = (name @ ''='') @ CHR ''{'' # u"
    then have "length (take (fst vm) t) = length ((name @ ''='') @ CHR ''{'' # u)" by simp
    with lt le show ?thesis by simp
  next
    fix u
    assume "name @ ''='' = take (fst vm) t @ CHR ''{'' # u"
    then have "CHR ''{'' \<in> set (name @ ''='')" by simp
    with name(3) show ?thesis by simp
  qed
  have "drop (Suc (length name) + 1) t = y @ ''}''" by (simp add: t_def)
  then have vv: "m_group t vm (Suc 0) (Suc 0) = y" using v(2) vy by (simp add: m_group_def)
  show ?thesis
    by (simp add: explode_match_def Let_def t1 t2 t3 bm cb vm vv w)
qed

section \<open>Exploding a payload of well-formed tokens\<close>

lemma exploded_text:
  assumes "vals \<noteq> []"
  shows "butlast (exploded_elems name vals @ exploded_zeros name (length vals) len)
         = join_sp (indexed name vals len)"
proof -
  have E: "exploded_elems name vals
           = concat (map (\<lambda>x. x @ '' '')
               (map (\<lambda>(i, v). name @ str_nat i @ ''='' @ v) (enumerate 0 vals)))"
    by (simp add: exploded_elems_def comp_def case_prod_unfold)
  have Z: "exploded_zeros name (length vals) len
           = concat (map (\<lambda>x. x @ '' '')
               (map (\<lambda>i. name @ str_nat i @ ''=0'') [length vals ..< nat len]))"
    by (simp add: exploded_zeros_def comp_def)
  have a: "exploded_elems name vals @ exploded_zeros name (length vals) len
        = concat (map (\<lambda>x. x @ '' '') (indexed name vals len))"
    by (simp only: E Z indexed_def map_append concat_append)
  have b: "indexed name vals len \<noteq> []"
    using assms by (cases vals) (simp_all add: indexed_def)
  show ?thesis unfolding a by (rule butlast_concat_sp [OF b])
qed

lemma set_join_sp: "set (join_sp xs) \<subseteq> (\<Union>x \<in> set xs. set x) \<union> {CHR '' ''}"
  by (induction xs rule: join_sp.induct) auto

lemma join_sp_chars:
  assumes "c \<noteq> CHR '' ''" and "\<And>x. x \<in> set xs \<Longrightarrow> c \<notin> set x"
  shows "c \<notin> set (join_sp xs)"
  using set_join_sp [of xs] assms by auto

lemma word_char_plain:
  "word_char c \<Longrightarrow> c \<noteq> CHR '' '' \<and> c \<noteq> CHR ''='' \<and> c \<noteq> CHR ''{'' \<and> c \<noteq> CHR ''}''"
  by (auto simp: word_char_def)

lemma explode_first_array:
  assumes pre: "CHR ''{'' \<notin> set pre" "pre = [] \<or> last pre = CHR '' ''"
    and name: "name \<noteq> []" "list_all word_char name"
    and elems: "join_sp elems \<noteq> []" "list_all (list_all elem_char) elems"
    and post: "post = [] \<or> hd post = CHR '' ''"
    and w: "getitem w name = Inr len"
  shows "trace_parser_explode_array (pre @ render (Array name elems) @ post) w
         = trace_parser_explode_array (pre @ join_sp (indexed name elems len) @ post) w"
proof -
  define y where "y = join_sp elems"
  have ne: "elems \<noteq> []" using elems(1) by auto
  have el: "c \<notin> set x" if "x \<in> set elems" "c \<in> set [CHR '' '', CHR ''{'', CHR ''}'', CHR 0x0A]"
    for x c
    using that elems(2) by (auto simp: list_all_iff elem_char_def)
  have y1: "y \<noteq> []" unfolding y_def by (rule elems(1))
  have y2: "CHR ''}'' \<notin> set y" unfolding y_def
    by (rule join_sp_chars, simp) (rule el, simp_all)
  have y3: "CHR ''{'' \<notin> set y" unfolding y_def
    by (rule join_sp_chars, simp) (rule el, simp_all)
  have y4: "CHR 0x0A \<notin> set y" unfolding y_def
    by (rule join_sp_chars, simp) (rule el, simp_all)
  note y = y1 y2 y3 y4
  have nm: "CHR '' '' \<notin> set name" "CHR ''='' \<notin> set name" "CHR ''{'' \<notin> set name"
    using name(2) word_char_plain by (auto simp: list_all_iff)
  define s where "s = pre @ (name @ ''={'' @ y @ ''}'') @ post"
  have s_eq: "pre @ render (Array name elems) @ post = s" by (simp add: s_def y_def)
  from search_first_array [OF pre name(1) nm(1,3) y(1,2,3) post]
  obtain m where m: "re_search pat_explode s = Some m" "fst m = length pre"
    "snd m = [length name, 1, 1, length y, 1]"
    unfolding s_def by (elim exE conjE)
  have vals: "split_on CHR '' '' y = elems"
    unfolding y_def by (rule split_on_join_sp [OF ne]) (rule el, simp_all)
  have "explode_match s w m
        = Inr (pre @ butlast (exploded_elems name (split_on CHR '' '' y)
                 @ exploded_zeros name (length (split_on CHR '' '' y)) len) @ post)"
    by (rule explode_match_token [OF s_def m(2,3) name(1) nm(2,3) y(1,2,4) w])
  then have "explode_match s w m = Inr (pre @ join_sp (indexed name elems len) @ post)"
    by (simp only: vals exploded_text [OF ne])
  with m(1) show ?thesis
    unfolding s_eq by (subst trace_parser_explode_array.simps) simp
qed

lemma explode_no_open:
  "CHR ''{'' \<notin> set s \<Longrightarrow> trace_parser_explode_array s w = Some (Inr s)"
  by (subst trace_parser_explode_array.simps) (simp add: no_open_no_match)

lemma indexed_no_open:
  assumes "list_all word_char name" and "list_all (list_all elem_char) elems"
  shows "CHR ''{'' \<notin> set (join_sp (indexed name elems len))"
proof (rule join_sp_chars)
  show "CHR ''{'' \<noteq> CHR '' ''" by simp
next
  fix x
  assume "x \<in> set (indexed name elems len)"
  then consider i v where "x = name @ str_nat i @ ''='' @ v" "v \<in> set elems"
    | i where "x = name @ str_nat i @ ''=0''"
    by (auto simp: indexed_def in_set_enumerate_eq)
  then show "CHR ''{'' \<notin> set x"
  proof cases
    case 1
    with assms word_char_plain str_nat_no(1) [of i] show ?thesis
      by (auto simp: list_all_iff elem_char_def)
  next
    case 2
    with assms word_char_plain str_nat_no(1) [of i] show ?thesis
      by (auto simp: list_all_iff)
  qed
qed

lemma payload_exploded_after:
  assumes "list_all (explodable w) toks"
    and "CHR ''{'' \<notin> set pre" and "pre = [] \<or> last pre = CHR '' ''"
  shows "trace_parser_explode_array (pre @ join_sp (map render toks)) w
         = Some (Inr (pre @ join_sp (map (exploded w) toks)))"
  using assms
proof (induction toks arbitrary: pre)
  case Nil
  then show ?case by (simp add: explode_no_open)
next
  case (Cons tok toks)
  define post where "post = (if toks = [] then [] else CHR '' '' # join_sp (map render toks))"
  define post' where "post' = (if toks = [] then [] else CHR '' '' # join_sp (map (exploded w) toks))"
  have r: "join_sp (map render (tok # toks)) = render tok @ post"
    by (simp add: join_sp_Cons post_def)
  have r': "join_sp (map (exploded w) (tok # toks)) = exploded w tok @ post'"
    by (simp add: join_sp_Cons post'_def)
  have post: "post = [] \<or> hd post = CHR '' ''" by (simp add: post_def)
  have rest: "trace_parser_explode_array (pre @ e @ post) w = Some (Inr (pre @ e @ post'))"
    if e: "CHR ''{'' \<notin> set e" for e
  proof (cases "toks = []")
    case True
    with e Cons.prems(2) show ?thesis by (simp add: post_def post'_def explode_no_open)
  next
    case False
    have "trace_parser_explode_array ((pre @ e @ '' '') @ join_sp (map render toks)) w
          = Some (Inr ((pre @ e @ '' '') @ join_sp (map (exploded w) toks)))"
      by (rule Cons.IH) (use Cons.prems e in auto)
    with False show ?thesis by (simp add: post_def post'_def)
  qed
  show ?case
  proof (cases tok)
    case (Scalar t)
    with Cons.prems(1) have "CHR ''{'' \<notin> set t" by simp
    from rest [OF this] have "trace_parser_explode_array (pre @ render tok @ post) w
          = Some (Inr (pre @ exploded w tok @ post'))"
      by (simp add: Scalar)
    then show ?thesis by (simp only: r r')
  next
    case (Array name elems)
    with Cons.prems(1) obtain len where a: "name \<noteq> []" "list_all word_char name"
      "join_sp elems \<noteq> []" "list_all (list_all elem_char) elems" "getitem w name = Inr len"
      by (auto split: sum.splits)
    have "trace_parser_explode_array (pre @ render (Array name elems) @ post) w
          = trace_parser_explode_array (pre @ join_sp (indexed name elems len) @ post) w"
      by (rule explode_first_array [OF Cons.prems(2,3) a(1-4) post a(5)])
    also have "\<dots> = Some (Inr (pre @ join_sp (indexed name elems len) @ post'))"
      by (rule rest) (rule indexed_no_open [OF a(2,4)])
    finally have "trace_parser_explode_array (pre @ render tok @ post) w
          = Some (Inr (pre @ exploded w tok @ post'))"
      using a(5) by (simp add: Array)
    then show ?thesis by (simp only: r r')
  qed
qed

section \<open>The arrays the prescanner finds\<close>








section \<open>The properties\<close>

subsection \<open>Exploding arrays\<close>

text \<open>
  C1.  On a payload of well-formed tokens, with a width that can be looked up for every
  array name, \<open>trace_parser_explode_array\<close> returns the payload with every array
  \<open>name={e1 ... ek}\<close> replaced by \<open>name0=e1 ... name(k-1)=ek\<close>, followed by
  \<open>name(k)=0 ... name(len-1)=0\<close> when \<open>k\<close> is below the width \<open>len\<close>; the scalars
  stay.  The elements are the pieces between single spaces.
\<close>

theorem explode_payload:
  "list_all (explodable w) toks \<Longrightarrow>
   trace_parser_explode_array (join_sp (map render toks)) w
   = Some (Inr (join_sp (map (exploded w) toks)))"
  using payload_exploded_after [of w toks "[]"] by simp

theorem explode_payload_witness:
  "list_all (explodable (Dict [''load'' \<mapsto> 4])) [Array ''load'' [''1'', ''2'']] \<and>
   trace_parser_explode_array ''load={1 2}'' (Dict [''load'' \<mapsto> 4])
   = Some (Inr ''load0=1 load1=2 load2=0 load3=0'')"
proof -
  have a: "list_all (explodable (Dict [''load'' \<mapsto> 4])) [Array ''load'' [''1'', ''2'']]"
    by (simp add: word_char_def elem_char_def)
  have b: "join_sp (map render [Array ''load'' [''1'', ''2'']]) = ''load={1 2}''"
    by simp
  have c: "join_sp (map (exploded (Dict [''load'' \<mapsto> 4])) [Array ''load'' [''1'', ''2'']])
           = ''load0=1 load1=2 load2=0 load3=0''"
    by code_simp
  from explode_payload [OF a] a show ?thesis by (simp only: b c)
qed

text \<open>Two elements separated by a tab are one piece for \<open>split(' ')\<close>: the result
  is not the one for the two white-space-separated elements.\<close>

theorem explode_tab_counterexample:
  "trace_parser_explode_array (''load={1'' @ tab @ ''2}'') (Dict [''load'' \<mapsto> 4])
     = Some (Inr (''load0=1'' @ tab @ ''2 load1=0 load2=0 load3=0'')) \<and>
   join_sp (indexed ''load'' (ws_tokens (''1'' @ tab @ ''2'')) 4)
     = ''load0=1 load1=2 load2=0 load3=0'' \<and>
   trace_parser_explode_array (''load={1'' @ tab @ ''2}'') (Dict [''load'' \<mapsto> 4])
     \<noteq> Some (Inr (join_sp (indexed ''load'' (ws_tokens (''1'' @ tab @ ''2'')) 4)))"
  by code_simp

lemma mixed_payload:
  "trace_parser_explode_array ''a=1 load={1 2} b={3} c=4'' (DefaultDict [''load'' \<mapsto> 3])
   = Some (Inr ''a=1 load0=1 load1=2 load2=0 b0=3 c=4'')"
  by code_simp

subsection \<open>The widths of the prescanner\<close>

text \<open>
  C2.  The prescanner's dictionary holds, for each name, the maximum over the
  occurrences of the name in the selected lines of the number of pieces that
  \<open>split(' ')\<close> cuts the elements into; a name with no occurrence is not a key.
\<close>

theorem prescanner_maximum:
  "entries (get_trace_array_lengths marker fin) name = max_or_absent (counts_seen marker fin name)"
  by (rule prescanner_entries)

text \<open>Elements separated by a tab are two white-space-separated tokens and one piece
  for \<open>split(' ')\<close>.\<close>

theorem prescanner_tab_counterexample:
  "entries (get_trace_array_lengths (literal ''m:'') (''1.0: m: load={1'' @ tab @ ''2}'' @ newline)) ''load''
     = Some 1 \<and>
   max_or_absent (ws_counts_seen (literal ''m:'') (''1.0: m: load={1'' @ tab @ ''2}'' @ newline) ''load'')
     = Some 2 \<and>
   entries (get_trace_array_lengths (literal ''m:'') (''1.0: m: load={1'' @ tab @ ''2}'' @ newline)) ''load''
     \<noteq> max_or_absent
         (ws_counts_seen (literal ''m:'') (''1.0: m: load={1'' @ tab @ ''2}'' @ newline) ''load'')"
  by code_simp

subsection \<open>Columns of an exploded array\<close>




lemma two_widths_exploded:
  "getitem (get_trace_array_lengths (literal ''m:'') two_widths) ''p'' = Inr 3 \<and>
   map_option (map_sum id snd)
     (explode_line (get_trace_array_lengths (literal ''m:'') two_widths)
        (''2.0: m: p={4} x=1'' @ newline))
   = Some (Inr ''p0=4 p1=0 p2=0 x=1'')"
  by code_simp

lemma field_columns_example:
  "field_columns ''p'' ''p0=4 p1=0 p2=0 x=1'' = 3"
  by code_simp

subsection \<open>Empty arrays\<close>

text \<open>
  C4.  \<open>pat_empty_array\<close> ends in a space, so an empty array that is the last token
  of its line is not removed: \<open>b={}\<close> stays in the payload, the header gets a column
  \<open>b\<close> and the row the cell \<open>b={}\<close>.
\<close>

theorem empty_array_last_token_kept:
  "map_option (map_sum id data_csv)
     (parse_into_csv (new_thermal (literal ''m:'') :: 'v thermal)
        (dir_with_txt (''1.0: m: a=1 b={}'' @ newline)))
   = Some (Inr (''Time,a,b'' @ newline @ ''1.0,1,b={}'' @ newline))"
  by code_simp

text \<open>An empty array followed by another token is removed, as the comment in the source
  says.\<close>

lemma empty_array_inner_token_removed:
  "map_option (map_sum id data_csv)
     (parse_into_csv (new_thermal (literal ''m:'') :: 'v thermal)
        (dir_with_txt (''1.0: m: b={} a=1'' @ newline)))
   = Some (Inr (''Time,a'' @ newline @ ''1.0,1'' @ newline))"
  by code_simp

subsection \<open>The line filter\<close>

text \<open>
  C5.  The line filter is \<open>re.search(self.unique_word, line)\<close>: the marker is a
  regular expression.  For a marker with no character that is special in a regular
  expression, the line is selected exactly when the marker occurs in it.  The filter
  is a function of the marker and the line alone.
\<close>

theorem line_filter_literal_marker:
  assumes "list_all (\<lambda>c. \<not> re_special c) marker"
  shows "re_compile marker = Some (literal marker) \<and>
         (selected (literal marker) line \<longleftrightarrow> is_substring marker line)"
  using assms by (simp add: re_compile_literal selected_literal)

theorem line_filter_literal_marker_witness:
  "re_compile ''thermal_temperature:'' = Some (literal ''thermal_temperature:'') \<and>
   selected (literal ''thermal_temperature:'') ''100.0: thermal_temperature: id=0 temp=45000'' \<and>
   \<not> selected (literal ''thermal_temperature:'') ''100.0: Thermal_Temperature: id=0''"
proof -
  have a: "list_all (\<lambda>c. \<not> re_special c) ''thermal_temperature:''"
    by (simp add: re_special_def)
  have b: "is_substring ''thermal_temperature:'' ''100.0: thermal_temperature: id=0 temp=45000''"
    by simp
  have c: "\<not> is_substring ''thermal_temperature:'' ''100.0: Thermal_Temperature: id=0''"
    by simp
  from line_filter_literal_marker [OF a, of "''100.0: thermal_temperature: id=0 temp=45000''"]
    line_filter_literal_marker [OF a, of "''100.0: Thermal_Temperature: id=0''"] b c
  show ?thesis by blast
qed

text \<open>With the marker \<open>a.c\<close> the line \<open>abc\<close> is selected, and does not contain the
  marker.\<close>

theorem line_filter_dot_marker_counterexample:
  "map_option (\<lambda>p. selected p ''abc'') (re_compile ''a.c'') = Some True \<and>
   \<not> is_substring ''a.c'' ''abc''"
  by (simp add: re_compile_def compile_char_def re_special_def selected_def)

subsection \<open>Header and row of a line\<close>

text \<open>
  C6.  The file whose one line is \<open>100.0: thermal_temperature: id=0 temp=45000\<close>,
  read with the marker \<open>thermal_temperature:\<close> of \<open>Thermal\<close>, gives the header
  \<open>Time,id,temp\<close> and the single row \<open>100.0,0,45000\<close> in \<open>data_csv\<close>.  The line
  ends in its newline, which \<open>line[:-1]\<close> removes.
\<close>

theorem example_1_header_and_row:
  "map_option (map_sum id data_csv)
     (parse_into_csv (new_thermal Thermal_unique_word :: 'v thermal)
        (dir_with_txt (''100.0: thermal_temperature: id=0 temp=45000'' @ newline)))
   = Some (Inr (''Time,id,temp'' @ newline @ ''100.0,0,45000'' @ newline))"
  by code_simp

subsection \<open>No selected line\<close>

text \<open>
  C7.  When no line of the trace text is selected by the marker (the text is the cached
  \<open>trace.txt\<close>, or the output of \<open>trace-cmd report\<close> when there is none), the
  constructor returns an object: \<open>data_csv\<close> is empty, \<open>read_csv\<close> is not called and
  \<open>data_frame\<close> is the empty \<open>DataFrame()\<close>.
\<close>

theorem zero_matching_lines_empty_table:
  fixes read_csv :: "string \<Rightarrow> error + 'v frame"
  assumes "trace_txt w = Some fin \<or>
           (trace_txt w = None \<and> trace_dat w = Some dat \<and> trace_cmd dat = Inr fin)"
    and "\<forall>line \<in> set (file_lines fin). \<not> selected uw line"
  shows "snd (init trace_cmd read_csv uw w)
         = Some (Inr \<lparr>data_csv = [], data_frame = DataFrame, unique_word = uw\<rparr>)"
proof -
  let ?self = "new_thermal uw :: 'v thermal"
  have created: "create_data_frame read_csv ?self = Inr ?self"
    by (simp add: create_data_frame_def new_thermal_def)
  from assms(1) show ?thesis
  proof
    assume cached: "trace_txt w = Some fin"
    have "parse_into_csv ?self w = Some (Inr ?self)"
      by (rule parse_into_csv_none_selected [OF cached assms(2)])
    with cached created show ?thesis
      by (simp add: init_def new_thermal_def)
  next
    assume dat: "trace_txt w = None \<and> trace_dat w = Some dat \<and> trace_cmd dat = Inr fin"
    let ?w1 = "w\<lparr>cmd_runs := Suc (cmd_runs w), trace_txt := Some fin\<rparr>"
    have "trace_txt ?w1 = Some fin" by simp
    then have "parse_into_csv ?self ?w1 = Some (Inr ?self)"
      by (rule parse_into_csv_none_selected [OF _ assms(2)])
    with dat created show ?thesis
      by (simp add: init_def run_trace_cmd_report_def new_thermal_def)
  qed
qed

theorem zero_matching_lines_empty_table_witness:
  "snd (init no_trace_cmd no_read_csv Thermal_unique_word
          (dir_with_txt (''100.0: cpu_idle: state=1'' @ newline)))
   = Some (Inr \<lparr>data_csv = [], data_frame = DataFrame, unique_word = Thermal_unique_word\<rparr>)"
  using zero_matching_lines_empty_table [of "dir_with_txt (''100.0: cpu_idle: state=1'' @ newline)"
      "''100.0: cpu_idle: state=1'' @ newline" _ no_trace_cmd Thermal_unique_word no_read_csv]
    other_event_not_selected
  by (simp add: dir_with_txt_def)

subsection \<open>The time shift\<close>




subsection \<open>The source of the trace text\<close>

text \<open>
  C9.  With neither \<open>trace.txt\<close> nor \<open>trace.dat\<close> in the directory the constructor
  raises \<open>IOError\<close> and leaves the directory as it was: \<open>trace-cmd\<close> has not run.
  With a \<open>trace.txt\<close> there, the directory is left as it was too, whatever the
  outcome of the parse: \<open>__run_trace_cmd_report\<close> is not called.
\<close>

theorem source_unavailable:
  "(trace_txt w = None \<and> trace_dat w = None \<longrightarrow>
      init trace_cmd read_csv uw w = (w, Some (Inl IOError))) \<and>
   (trace_txt w \<noteq> None \<longrightarrow> fst (init trace_cmd read_csv uw w) = w)"
  by (simp add: init_def run_trace_cmd_report_def)

theorem source_unavailable_witness:
  "init no_trace_cmd no_read_csv Thermal_unique_word \<lparr>trace_txt = None, trace_dat = None, cmd_runs = 0\<rparr>
     = (\<lparr>trace_txt = None, trace_dat = None, cmd_runs = 0\<rparr>, Some (Inl IOError)) \<and>
   fst (init no_trace_cmd no_read_csv Thermal_unique_word (dir_with_txt newline)) = dir_with_txt newline"
  using source_unavailable [of "\<lparr>trace_txt = None, trace_dat = None, cmd_runs = 0\<rparr>" no_trace_cmd no_read_csv Thermal_unique_word]
    source_unavailable [of "dir_with_txt newline" no_trace_cmd no_read_csv Thermal_unique_word]
  by (simp add: dir_with_txt_def)

subsection \<open>The loop of the exploder ends\<close>



end
